theory Spec2Isabelle
  imports Main "HOL-Library.Sublist"
begin

section \<open>Byte strings\<close>

text \<open>
  Go strings and byte slices are sequences of bytes; they are modelled as \<open>string\<close>
  (lists of 8-bit characters). The line feed and the horizontal tab have no literal
  notation and are written by their code.
\<close>

abbreviation nl :: char where "nl \<equiv> CHR 0x0A"
abbreviation tab :: char where "tab \<equiv> CHR 0x09"
abbreviation dquote :: char where "dquote \<equiv> CHR 0x22"

text \<open>The test \<open>c == ' ' || c == '\t'\<close> that \<open>wrap\<close> and \<open>indentNL\<close> repeat.\<close>

definition blank :: "char \<Rightarrow> bool" where
  "blank c = (c = CHR '' '' \<or> c = tab)"

text \<open>\<open>strings.HasPrefix(s, p)\<close>.\<close>

definition HasPrefix :: "string \<Rightarrow> string \<Rightarrow> bool" where
  "HasPrefix s p = (take (length p) s = p)"

text \<open>\<open>strings.HasSuffix(s, p)\<close>.\<close>

definition HasSuffix :: "string \<Rightarrow> string \<Rightarrow> bool" where
  "HasSuffix s p = (length p \<le> length s \<and> drop (length s - length p) s = p)"

text \<open>
  \<open>strings.Index(s, sub)\<close>: the offset of the first occurrence of \<open>sub\<close>,
  with \<open>None\<close> for Go's \<open>-1\<close>.
\<close>

fun Index :: "string \<Rightarrow> string \<Rightarrow> nat option" where
  "Index [] sub = (if sub = [] then Some 0 else None)"
| "Index (c # cs) sub =
     (if HasPrefix (c # cs) sub then Some 0 else map_option Suc (Index cs sub))"

text \<open>The slice expression \<open>t[a:b]\<close> for \<open>a \<le> b \<le> len(t)\<close>.\<close>

definition slice :: "string \<Rightarrow> nat \<Rightarrow> nat \<Rightarrow> string" where
  "slice t a b = take (b - a) (drop a t)"

section \<open>Words\<close>

text \<open>
  \<open>wordRE = [\d\w]+\<close>. In Go's regexp syntax \<open>\d\<close> is \<open>[0-9]\<close> and \<open>\w\<close> is
  \<open>[0-9A-Za-z_]\<close>, both ASCII only, so a word character is a digit, a letter or the
  underscore.
\<close>

definition word_char :: "char \<Rightarrow> bool" where
  "word_char c =
     (let n = (of_char c :: nat)
      in (48 \<le> n \<and> n \<le> 57) \<or> (65 \<le> n \<and> n \<le> 90) \<or> (97 \<le> n \<and> n \<le> 122) \<or> n = 95)"

text \<open>
  \<open>wordRE.FindAllString(s, -1)\<close>: the successive leftmost, longest, non-overlapping
  matches, that is the maximal runs of word characters. The run being read is carried
  in \<open>cur\<close>.
\<close>

fun words_from :: "string \<Rightarrow> string \<Rightarrow> string list" where
  "words_from cur [] = (if cur = [] then [] else [cur])"
| "words_from cur (c # cs) =
     (if word_char c then words_from (cur @ [c]) cs
      else (if cur = [] then [] else [cur]) @ words_from [] cs)"

definition words :: "string \<Rightarrow> string list" where
  "words s = words_from [] s"

definition wordCount :: "string \<Rightarrow> nat" where
  "wordCount s = length (words s)"

section \<open>Attribute reader\<close>

text \<open>
  \<open>findAttr(tag, name)\<close>: the text between \<open>name="\<close> and the next double quote,
  empty when either is missing.
\<close>

definition findAttr :: "string \<Rightarrow> string \<Rightarrow> string" where
  "findAttr tag name =
     (case Index tag (name @ [CHR ''='', dquote]) of
        None \<Rightarrow> []
      | Some i \<Rightarrow>
          (let tag' = drop (i + length name + 2) tag
           in case Index tag' [dquote] of
                None \<Rightarrow> []
              | Some j \<Rightarrow> take j tag'))"

section \<open>Line reflow engine\<close>

text \<open>
  Both \<open>wrap\<close> and \<open>indentNL\<close> start by walking back from the end of the buffer to
  the byte after the last line feed: \<open>i := len(all); for i > 0 && all[i-1] != '\n' { i-- }\<close>.
\<close>

definition lineStart :: "string \<Rightarrow> nat" where
  "lineStart all = length all - length (takeWhile (\<lambda>c. c \<noteq> nl) (rev all))"

text \<open>
  \<open>indentNL(buf)\<close> appends a line feed and the leading blanks of the line it ends.
\<close>

definition indentNL :: "string \<Rightarrow> string" where
  "indentNL all = all @ [nl] @ takeWhile blank (drop (lineStart all) all)"

text \<open>
  The failures of a translation. \<open>BadTemplate\<close> is \<open>panic("bad template")\<close>,
  \<open>BadTag tag\<close> is \<open>panic(tag)\<close>; the other two are the run-time panics of Go for an
  index and for a slice bound out of range.
\<close>

datatype error = BadTemplate | BadTag string | IndexOutOfRange | SliceOutOfRange

text \<open>\<open>strings.SplitAfter(text, "\n")\<close>: never empty, every piece but the last ends in a line feed.\<close>

fun SplitAfter :: "string \<Rightarrow> string list" where
  "SplitAfter [] = [[]]"
| "SplitAfter (c # cs) =
     (if c = nl then [c] # SplitAfter cs
      else (case SplitAfter cs of l # ls \<Rightarrow> (c # l) # ls | [] \<Rightarrow> [[c]]))"

text \<open>
  The first inner loop of \<open>wrap\<close>: \<open>for j >= 0 && line[j] != ' ' && line[j] != '\t' { j-- }\<close>,
  started at an index inside the line; \<open>None\<close> stands for the exit with \<open>j < 0\<close>.
\<close>

fun searchBack :: "string \<Rightarrow> nat \<Rightarrow> nat option" where
  "searchBack line 0 = (if blank (line ! 0) then Some 0 else None)"
| "searchBack line (Suc j) =
     (if blank (line ! Suc j) then Some (Suc j) else searchBack line j)"

text \<open>
  The choice of the break in one round of the wrapping loop, for a line longer than
  the budget \<open>Target - len(indent)\<close>. A negative budget makes the first loop exit at
  once and the second one read \<open>line[j]\<close> at a negative \<open>j\<close>, which panics. Otherwise
  the result is \<open>Some j\<close> for a break before \<open>line[j]\<close>, and \<open>None\<close> when the
  forward search reaches the end of the line (the \<open>break\<close> statement).
\<close>

definition Target :: int where
  "Target = 80"

definition findBreak :: "string \<Rightarrow> string \<Rightarrow> error + nat option" where
  "findBreak indent line =
     (let b = Target - int (length indent)
      in if b < 0 then Inl IndexOutOfRange
         else (case searchBack line (nat b) of
                 Some j \<Rightarrow> Inr (Some j)
               | None \<Rightarrow>
                   (let j = nat b + length (takeWhile (\<lambda>c. \<not> blank c) (drop (nat b) line))
                    in if j = length line then Inr None else Inr (Some j))))"

lemma searchBack_le: "searchBack line k = Some j \<Longrightarrow> j \<le> k"
  by (induction k) (auto split: if_splits)

lemma searchBack_blank: "searchBack line k = Some j \<Longrightarrow> blank (line ! j)"
  by (induction k) (auto split: if_splits)

lemma searchBack_None: "searchBack line k = None \<Longrightarrow> j \<le> k \<Longrightarrow> \<not> blank (line ! j)"
proof (induction k)
  case 0
  then show ?case by (simp split: if_splits)
next
  case (Suc k)
  then show ?case by (cases "j = Suc k") (auto split: if_splits)
qed

lemma findBreak_progress:
  assumes "findBreak indent line = Inr (Some j)"
    and "int (length line) > Target - int (length indent)"
  shows "length (dropWhile blank (drop j line)) < length line"
proof -
  let ?b = "Target - int (length indent)"
  from assms(1) have b0: "0 \<le> ?b"
    by (auto simp: findBreak_def Let_def split: if_splits)
  from assms(2) b0 have len: "nat ?b < length line" by linarith
  show ?thesis
  proof (cases "searchBack line (nat ?b)")
    case (Some k)
    with assms(1) b0 have jk: "j = k" by (simp add: findBreak_def Let_def)
    from Some jk have "j \<le> nat ?b" and bl: "blank (line ! j)"
      by (auto dest: searchBack_le searchBack_blank)
    with len have jl: "j < length line" by simp
    then have "drop j line = line ! j # drop (Suc j) line"
      by (simp add: Cons_nth_drop_Suc)
    with bl have "dropWhile blank (drop j line) = dropWhile blank (drop (Suc j) line)"
      by simp
    moreover have "length (dropWhile blank (drop (Suc j) line)) \<le> length (drop (Suc j) line)"
      by (rule length_dropWhile_le)
    ultimately show ?thesis using jl by simp
  next
    case None
    from None have nb: "\<not> blank (line ! nat ?b)" by (rule searchBack_None) simp
    from len have d: "drop (nat ?b) line = line ! nat ?b # drop (Suc (nat ?b)) line"
      by (simp add: Cons_nth_drop_Suc)
    from None assms(1) b0
    have j: "j = nat ?b + length (takeWhile (\<lambda>c. \<not> blank c) (drop (nat ?b) line))"
      by (auto simp: findBreak_def Let_def split: if_splits)
    with d nb have "0 < j" by simp
    moreover have "length (dropWhile blank (drop j line)) \<le> length (drop j line)"
      by (rule length_dropWhile_le)
    ultimately show ?thesis using len by simp
  qed
qed

text \<open>
  The wrapping loop of \<open>wrap\<close> for one line, after its indentation has been split off:
  \<open>for len(line) > Target-len(indent) { ... }\<close> followed by the two final writes. The
  result is the text written to the buffer.
\<close>

function wrapLoop :: "string \<Rightarrow> string \<Rightarrow> error + string" where
  "wrapLoop indent line =
     (if int (length line) > Target - int (length indent) then
        (case findBreak indent line of
           Inl e \<Rightarrow> Inl e
         | Inr None \<Rightarrow> Inr (indent @ line)
         | Inr (Some j) \<Rightarrow>
             (case wrapLoop indent (dropWhile blank (drop j line)) of
                Inl e \<Rightarrow> Inl e
              | Inr out \<Rightarrow> Inr (indent @ take j line @ [nl] @ out)))
      else Inr (indent @ line))"
  by pat_completeness auto
termination
  by (relation "measure (\<lambda>(indent, line). length line)") (auto dest: findBreak_progress)

declare wrapLoop.simps [simp del]

text \<open>The body of \<open>for _, line := range lines\<close> for one line.\<close>

definition wrapLine :: "string \<Rightarrow> error + string" where
  "wrapLine line = wrapLoop (takeWhile blank line) (dropWhile blank line)"

fun wrapLines :: "string list \<Rightarrow> error + string" where
  "wrapLines [] = Inr []"
| "wrapLines (l # ls) =
     (case wrapLine l of
        Inl e \<Rightarrow> Inl e
      | Inr a \<Rightarrow> (case wrapLines ls of Inl e \<Rightarrow> Inl e | Inr b \<Rightarrow> Inr (a @ b)))"

text \<open>
  \<open>wrap(buf, text)\<close>: the unfinished last line of the buffer is taken back, put in
  front of the first line of the text, and everything is written again, wrapped.
\<close>

definition wrap :: "string \<Rightarrow> string \<Rightarrow> error + string" where
  "wrap all text =
     (let i = lineStart all;
          lines = SplitAfter text;
          lines' = (drop i all @ hd lines) # tl lines
      in case wrapLines lines' of
           Inl e \<Rightarrow> Inl e
         | Inr out \<Rightarrow> Inr (take i all @ out))"

section \<open>Markup interpreter\<close>

text \<open>The verb \<open>%d\<close> of \<open>fmt.Fprintf\<close> for a non-negative number.\<close>

fun digits :: "nat \<Rightarrow> string" where
  "digits n =
     (if n < 10 then [char_of (48 + n)] else digits (n div 10) @ [char_of (48 + n mod 10)])"

declare digits.simps [simp del]

text \<open>
  The state of the scanning loop of \<open>templateToLRE\<close>: the cursor \<open>i\<close> (here
  \<open>cursor\<close>), the mark \<open>start\<close> of the pending literal text, the stack \<open>optStart\<close>
  of buffer offsets (its top is the last element, as \<open>append\<close> puts it) and the
  contents of \<open>buf\<close>.
\<close>

record state =
  cursor :: nat
  start :: nat
  optStart :: "nat list"
  buf :: string

text \<open>The first \<open>case\<close> of the loop: one of the six doubled characters begins at the cursor.\<close>

definition structural :: "string \<Rightarrow> bool" where
  "structural rest =
     (HasPrefix rest ''(('' \<or> HasPrefix rest ''||'' \<or> HasPrefix rest ''))'' \<or>
      HasPrefix rest ''//'' \<or> HasPrefix rest ''??'' \<or> HasPrefix rest ''__'')"

text \<open>The second \<open>case\<close>: \<open><<\<close> that is not \<open><<<\<close>.\<close>

definition tagOpen :: "string \<Rightarrow> bool" where
  "tagOpen rest = (HasPrefix rest ''<<'' \<and> \<not> HasPrefix rest ''<<<'')"

text \<open>\<open>case tag == "<<beginOptional>>"\<close>: push the buffer length, then write.\<close>

definition beginOptional :: "nat list \<Rightarrow> string \<Rightarrow> nat list \<times> string" where
  "beginOptional stack b = (stack @ [length b], indentNL b @ ''(( '')"

text \<open>
  \<open>case tag == "<<endOptional>>"\<close>. Reading the top of an empty stack is an index
  out of range; \<open>buf.Bytes()[start:]\<close> and \<open>buf.Truncate(start)\<close> panic when the offset
  is beyond the buffer. \<open>sinceHasNL\<close> is the test
  \<open>bytes.IndexByte(buf.Bytes()[start:], '\n') >= 0\<close>.
\<close>

definition sinceHasNL :: "nat \<Rightarrow> string \<Rightarrow> bool" where
  "sinceHasNL s b = (nl \<in> set (drop s b))"

definition discardable :: "string list \<Rightarrow> bool" where
  "discardable w = (length w = 0 \<or> (length w = 1 \<and> w ! 0 = ''s''))"

definition endOptional :: "nat list \<Rightarrow> string \<Rightarrow> error + nat list \<times> string" where
  "endOptional stack b =
     (if stack = [] then Inl IndexOutOfRange
      else
        (let s = last stack;
             stack' = butlast stack
         in if length b < s then Inl SliceOutOfRange
            else
              (let b1 = (if sinceHasNL s b then indentNL b else b @ '' '');
                   b2 = indentNL (b1 @ ''))??'');
                   w = words (drop s b2)
               in Inr (stack', if discardable w then take s b2 else b2))))"

text \<open>
  \<open>case strings.HasPrefix(tag, `<<var;`)\<close>: the variable substitution policy. The
  result is the buffer; the \<open>continue\<close> of the bullet without a word skips the closing
  \<open>indentNL\<close> that ends every other branch.
\<close>

definition variable :: "string \<Rightarrow> string \<Rightarrow> string" where
  "variable tag b =
     (let name = findAttr tag ''name'';
          original = findAttr tag ''original'';
          b1 = indentNL b
      in if name = ''copyright'' then indentNL (b1 @ ''//** Copyright **//'' @ [nl])
         else
           (let n0 = wordCount original;
                n = (if n0 < 1 then 1 else n0)
            in if name = ''bullet'' \<and> n < 5 then
                 (if 0 < wordCount original
                  then indentNL (b1 @ ''(( '' @ original @ '' ))??'')
                  else b1 @ original @ '' '')
               else
                 (let n' = (if name \<noteq> ''bullet'' \<and> n < 5 then 5 else n);
                      b2 = (if original \<noteq> [] then indentNL (b1 @ ''//** '' @ original @ '' **//'')
                            else b1)
                  in indentNL (b2 @ ''__'' @ digits n' @ ''__''))))"

text \<open>The inner \<open>switch\<close> on the tag, with \<open>default: panic(tag)\<close>.\<close>

definition dispatch :: "string \<Rightarrow> nat list \<Rightarrow> string \<Rightarrow> error + nat list \<times> string" where
  "dispatch tag stack b =
     (if tag = ''<<beginOptional>>'' then Inr (beginOptional stack b)
      else if tag = ''<<endOptional>>'' then endOptional stack b
      else if HasPrefix tag ''<<var;'' then Inr (stack, variable tag b)
      else Inl (BadTag tag))"

text \<open>The handling of a tag that opens at the cursor.\<close>

definition tagStep :: "string \<Rightarrow> state \<Rightarrow> error + state" where
  "tagStep t st =
     (let rest = drop (cursor st) t
      in case wrap (buf st) (slice t (start st) (cursor st)) of
           Inl e \<Rightarrow> Inl e
         | Inr b \<Rightarrow>
             (case Index rest ''>>'' of
                None \<Rightarrow> Inl BadTemplate
              | Some j \<Rightarrow>
                  (let tag = take (j + 2) rest;
                       i1 = cursor st + j + 2
                   in if findAttr tag ''original'' = ''name'' then
                        (case wrap b ''name'' of
                           Inl e \<Rightarrow> Inl e
                         | Inr b' \<Rightarrow> Inr (st\<lparr>cursor := i1, start := i1, buf := b'\<rparr>))
                      else
                        (let i2 = i1 + length (takeWhile (\<lambda>c. c = CHR '' '') (drop i1 t))
                         in case dispatch tag (optStart st) b of
                              Inl e \<Rightarrow> Inl e
                            | Inr (stack', b') \<Rightarrow>
                                Inr \<lparr>cursor = i2, start = i2, optStart = stack', buf = b'\<rparr>))))"

text \<open>The handling of a run of a doubled character that begins at the cursor.\<close>

definition tokenStep :: "string \<Rightarrow> state \<Rightarrow> error + state" where
  "tokenStep t st =
     (let rest = drop (cursor st) t
      in case wrap (buf st) (slice t (start st) (cursor st + 1)) of
           Inl e \<Rightarrow> Inl e
         | Inr b \<Rightarrow>
             (let c = hd rest;
                  i' = cursor st + length (takeWhile (\<lambda>x. x = c) rest)
              in Inr (st\<lparr>cursor := i', start := i', buf := b\<rparr>)))"

text \<open>One round of the loop \<open>for i := 0; i < len(t); { switch ... }\<close>, entered with \<open>i < len(t)\<close>.\<close>

definition step :: "string \<Rightarrow> state \<Rightarrow> error + state" where
  "step t st =
     (let rest = drop (cursor st) t
      in if structural rest then tokenStep t st
         else if tagOpen rest then tagStep t st
         else Inr (st\<lparr>cursor := cursor st + 1\<rparr>))"

lemma HasPrefix_Cons2: "HasPrefix s [a, b] \<Longrightarrow> \<exists>r. s = a # b # r"
  by (cases s; cases "tl s") (auto simp: HasPrefix_def)

lemma structural_run:
  assumes "structural rest"
  shows "0 < length (takeWhile (\<lambda>x. x = hd rest) rest)"
proof -
  from assms obtain a r where "rest = a # r"
    by (auto simp: structural_def dest!: HasPrefix_Cons2)
  then show ?thesis by simp
qed

lemma step_advances:
  assumes "step t st = Inr st'"
  shows "cursor st < cursor st'"
proof (cases "structural (drop (cursor st) t)")
  case True
  with assms show ?thesis
    using structural_run [OF True]
    by (auto simp: step_def tokenStep_def Let_def split: sum.splits)
next
  case False
  with assms show ?thesis
    by (auto simp: step_def tagStep_def Let_def split: sum.splits option.splits if_splits prod.splits)
qed

text \<open>The whole loop, from any state.\<close>

function scan :: "string \<Rightarrow> state \<Rightarrow> error + state" where
  "scan t st =
     (if cursor st < length t then
        (case step t st of Inl e \<Rightarrow> Inl e | Inr st' \<Rightarrow> scan t st')
      else Inr st)"
  by pat_completeness auto
termination
  by (relation "measure (\<lambda>(t, st). length t - cursor st)") (auto dest: step_advances)

declare scan.simps [simp del]

definition initial :: state where
  "initial = \<lparr>cursor = 0, start = 0, optStart = [], buf = []\<rparr>"

text \<open>The loop followed by the last \<open>wrap(&buf, t[start:])\<close>: the body before normalisation.\<close>

definition assemble :: "string \<Rightarrow> error + string" where
  "assemble t =
     (case scan t initial of
        Inl e \<Rightarrow> Inl e
      | Inr st \<Rightarrow> wrap (buf st) (drop (start st) t))"

section \<open>Output normaliser\<close>

text \<open>
  \<open>re.ReplaceAll(data, repl)\<close> for an expression that never matches the empty string:
  the text is read from the left, the leftmost match is replaced and reading goes on
  behind it. The expression is given by \<open>m\<close>, which tells for a suffix of the text the
  length of the match that begins at its head, if there is one.
\<close>

function ReplaceAll :: "(string \<Rightarrow> nat option) \<Rightarrow> string \<Rightarrow> string \<Rightarrow> string" where
  "ReplaceAll m repl [] = []"
| "ReplaceAll m repl (c # cs) =
     (case m (c # cs) of
        Some (Suc k) \<Rightarrow> repl @ ReplaceAll m repl (drop k cs)
      | _ \<Rightarrow> c # ReplaceAll m repl cs)"
  by pat_completeness auto
termination
  by (relation "measure (\<lambda>(m, repl, s). length s)") auto

text \<open>
  \<open>trailingSpaceRE = (?m)[ \t]+$\<close>: a run of blanks that is followed by a line feed
  or by the end of the text. The run is taken as long as possible, and a shorter one
  would be followed by a blank.
\<close>

definition trailingSpaceRE :: "string \<Rightarrow> nat option" where
  "trailingSpaceRE s =
     (let n = length (takeWhile blank s)
      in if 0 < n \<and> (drop n s = [] \<or> hd (drop n s) = nl) then Some n else None)"

text \<open>
  \<open>blankRE = \n([.," \t]*\n){2,}\<close>: a line feed followed by two or more lines that
  hold nothing but the characters of the class; the repetition is greedy.
  \<open>blankLine\<close> is one round of the group, \<open>blankLines\<close> the number of rounds and
  their total length.
\<close>

definition punct :: "char \<Rightarrow> bool" where
  "punct c = (c = CHR ''.'' \<or> c = CHR '','' \<or> c = dquote \<or> c = CHR '' '' \<or> c = tab)"

definition blankLine :: "string \<Rightarrow> nat option" where
  "blankLine s =
     (let n = length (takeWhile punct s)
      in if n < length s \<and> s ! n = nl then Some (Suc n) else None)"

function blankLines :: "string \<Rightarrow> nat \<times> nat" where
  "blankLines s =
     (case blankLine s of
        None \<Rightarrow> (0, 0)
      | Some n \<Rightarrow> (let (k, len) = blankLines (drop n s) in (Suc k, n + len)))"
  by pat_completeness auto
termination
  by (relation "measure length") (auto simp: blankLine_def Let_def split: if_splits)

declare blankLines.simps [simp del]

definition blankRE :: "string \<Rightarrow> nat option" where
  "blankRE s =
     (case s of
        [] \<Rightarrow> None
      | c # cs \<Rightarrow>
          (if c = nl then
             (let (k, len) = blankLines cs in if 2 \<le> k then Some (Suc len) else None)
           else None))"

text \<open>
  \<open>bytes.TrimSpace\<close> on ASCII text: the white space of Go is tab, line feed, vertical
  tab, form feed, carriage return and space.
\<close>

definition space :: "char \<Rightarrow> bool" where
  "space c = (c = tab \<or> c = nl \<or> c = CHR 0x0B \<or> c = CHR 0x0C \<or> c = CHR 0x0D \<or> c = CHR '' '')"

definition TrimSpace :: "string \<Rightarrow> string" where
  "TrimSpace s = rev (dropWhile space (rev (dropWhile space s)))"

text \<open>
  The message written to standard error, as the file name and the text that was found
  ahead of the copyright notice.
\<close>

datatype warning = BeforeCopyright string string

text \<open>
  The block between \<open>bytes.Index(data, "//**Copyright**//")\<close> and the label
  \<open>NoCut\<close>. It only reports: \<open>data\<close> is not assigned.
\<close>

definition copyrightCheck :: "string \<Rightarrow> string \<Rightarrow> warning option" where
  "copyrightCheck file data =
     (case Index data ''//**Copyright**//'' of
        None \<Rightarrow> None
      | Some i \<Rightarrow>
          (if i < 100 then
             (let cut = TrimSpace (take i data)
              in if HasPrefix cut ''(('' \<and> HasSuffix cut ''))??'' then None
                 else if 0 < length cut then Some (BeforeCopyright file cut)
                 else None)
           else None))"

text \<open>\<open>for len(data) > 0 && data[0] == '\n' { data = data[1:] }\<close>\<close>

definition trimLeadingNL :: "string \<Rightarrow> string" where
  "trimLeadingNL data = dropWhile (\<lambda>c. c = nl) data"

text \<open>\<open>if len(data) > 0 && data[len(data)-1] != '\n' { data = append(data, '\n') }\<close>\<close>

definition ensureFinalNL :: "string \<Rightarrow> string" where
  "ensureFinalNL data = (if 0 < length data \<and> last data \<noteq> nl then data @ [nl] else data)"

text \<open>
  Everything \<open>templateToLRE\<close> does after the last \<open>wrap\<close>: the returned text and the
  warning, if one was printed.
\<close>

definition normalizer :: "string \<Rightarrow> string \<Rightarrow> string \<times> warning option" where
  "normalizer file data0 =
     (let data1 = ReplaceAll trailingSpaceRE [] data0;
          data2 = ReplaceAll blankRE [nl, nl] data1
      in (ensureFinalNL (trimLeadingNL data2), copyrightCheck file data2))"

text \<open>\<open>templateToLRE(file, t)\<close>.\<close>

definition templateToLRE :: "string \<Rightarrow> string \<Rightarrow> error + string \<times> warning option" where
  "templateToLRE file t =
     (case assemble t of
        Inl e \<Rightarrow> Inl e
      | Inr data \<Rightarrow> Inr (normalizer file data))"

section \<open>Vocabulary of the properties\<close>

text \<open>A tag written out with its two attributes, for concrete templates.\<close>

definition attr :: "string \<Rightarrow> string \<Rightarrow> string" where
  "attr k v = k @ ''='' @ [dquote] @ v @ [dquote]"

definition varTag :: "string \<Rightarrow> string \<Rightarrow> string" where
  "varTag name original = ''<<var;'' @ attr ''name'' name @ '';'' @ attr ''original'' original @ ''>>''"


text \<open>The lines of a document, without their line feeds.\<close>

fun docLines :: "string \<Rightarrow> string list" where
  "docLines [] = [[]]"
| "docLines (c # cs) =
     (if c = nl then [] # docLines cs
      else (case docLines cs of l # ls \<Rightarrow> (c # l) # ls | [] \<Rightarrow> [[c]]))"

text \<open>
  A line is within the width when it has at most 80 columns, or when it is
  indentation followed by a single token without a blank, which cannot be broken.
\<close>

definition lineOK :: "string \<Rightarrow> bool" where
  "lineOK l = (int (length l) \<le> Target \<or> list_all (\<lambda>c. \<not> blank c) (dropWhile blank l))"

text \<open>The number of line feeds at the end of a document.\<close>

definition trailingNLs :: "string \<Rightarrow> nat" where
  "trailingNLs d = length (takeWhile (\<lambda>c. c = nl) (rev d))"

text \<open>
  The word count as the specification words it: a word is a maximal run of
  alphanumeric characters, the count of an empty text is raised to 1, and a count
  below 5 is raised to 5.
\<close>

definition alnum :: "char \<Rightarrow> bool" where
  "alnum c =
     (let n = (of_char c :: nat)
      in (48 \<le> n \<and> n \<le> 57) \<or> (65 \<le> n \<and> n \<le> 90) \<or> (97 \<le> n \<and> n \<le> 122))"

fun alnumWords_from :: "string \<Rightarrow> string \<Rightarrow> string list" where
  "alnumWords_from cur [] = (if cur = [] then [] else [cur])"
| "alnumWords_from cur (c # cs) =
     (if alnum c then alnumWords_from (cur @ [c]) cs
      else (if cur = [] then [] else [cur]) @ alnumWords_from [] cs)"

definition specWildcardCount :: "string \<Rightarrow> nat" where
  "specWildcardCount original =
     (let k = length (alnumWords_from [] original);
          k' = (if original = [] then max 1 k else k)
      in if k' < 5 then 5 else k')"

text \<open>
  The states that the loop of \<open>templateToLRE\<close> passes through at the head of a round,
  for the template \<open>t\<close>.
\<close>

inductive reachable :: "string \<Rightarrow> state \<Rightarrow> bool" for t :: string where
  entry: "reachable t initial"
| round: "reachable t st \<Longrightarrow> cursor st < length t \<Longrightarrow> step t st = Inr st' \<Longrightarrow> reachable t st'"

text \<open>The state after \<open>n\<close> rounds, when the loop gets that far.\<close>

fun rounds :: "nat \<Rightarrow> string \<Rightarrow> state \<Rightarrow> state option" where
  "rounds 0 t st = Some st"
| "rounds (Suc n) t st =
     (if cursor st < length t then
        (case step t st of Inl e \<Rightarrow> None | Inr st' \<Rightarrow> rounds n t st')
      else None)"

text \<open>
  The offsets on the stack grow from the bottom to the top, and each of them is the
  place of a line feed in the buffer: the one that \<open>indentNL\<close> wrote right after the
  offset was pushed.
\<close>

definition stackInv :: "nat list \<Rightarrow> string \<Rightarrow> bool" where
  "stackInv stack b = (sorted_wrt (<) stack \<and> (\<forall>s\<in>set stack. s < length b \<and> b ! s = nl))"

text \<open>
  The round that begins in \<open>st\<close> handles the tag \<open><<endOptional>>\<close>, and \<open>b\<close> is the
  buffer that the handler finds, after the pending literal text has been flushed.
\<close>

definition endOptionalAt :: "string \<Rightarrow> state \<Rightarrow> string \<Rightarrow> bool" where
  "endOptionalAt t st b =
     (cursor st < length t \<and>
      \<not> structural (drop (cursor st) t) \<and>
      tagOpen (drop (cursor st) t) \<and>
      wrap (buf st) (slice t (start st) (cursor st)) = Inr b \<and>
      (case Index (drop (cursor st) t) ''>>'' of
         None \<Rightarrow> False
       | Some j \<Rightarrow> take (j + 2) (drop (cursor st) t) = ''<<endOptional>>''))"

text \<open>The buffer after the end of an optional block has written its markers, before it looks at the words.\<close>

definition closing :: "nat \<Rightarrow> string \<Rightarrow> string" where
  "closing s b = indentNL ((if sinceHasNL s b then indentNL b else b @ '' '') @ ''))??'')"




text \<open>Every line of a text is within the width.\<close>

definition okText :: "string \<Rightarrow> bool" where
  "okText s = list_all lineOK (docLines s)"

section \<open>Copyright preamble (C1)\<close>

text \<open>
  C1 says that text ahead of the copyright marker, when it is not an optional group,
  is reported and removed. The code reports it and keeps it: the block that computes
  \<open>cut\<close> never assigns \<open>data\<close>. In the first template the marker reaches the body
  through a bullet, is found at offset 5, and the line \<open>x\<close> ahead of it is still in the
  result, next to the warning. In the second template the marker comes from a copyright
  variable; it is written with inner spaces, the search for the spelling without spaces
  finds nothing, and there is neither a warning nor a removal.
\<close>

theorem copyright_preamble_kept:
  "templateToLRE ''MIT.json'' (''x '' @ varTag ''bullet'' ''//**Copyright**//'')
     = Inr (''x'' @ [nl] @ ''(( //**Copyright**// ))??'' @ [nl],
            Some (BeforeCopyright ''MIT.json'' (''x'' @ [nl] @ ''((''))) \<and>
   templateToLRE ''MIT.json'' (''x '' @ varTag ''copyright'' ''Copyright (c) 2020'')
     = Inr (''x'' @ [nl] @ ''//** Copyright **//'' @ [nl, nl], None)"
  by code_simp

section \<open>Fatal errors (C6)\<close>

text \<open>
  C6 says that a translation fails only on malformed markup. A template of 81 spaces
  has no tag at all, and its translation panics: in \<open>wrap\<close> the budget
  \<open>Target - len(indent)\<close> is \<open>-1\<close>, and the forward search reads \<open>line[-1]\<close>.
\<close>

theorem deep_indent_panics:
  "templateToLRE ''MIT.json'' (replicate 81 (CHR '' '')) = Inl IndexOutOfRange"
  by code_simp

section \<open>Wildcard count of a variable (C4)\<close>

text \<open>
  C4, as stated, counts the words of \<open>original\<close> as maximal runs of alphanumeric
  characters. The code counts the matches of \<open>[\d\w]+\<close>, and \<open>\w\<close> contains the
  underscore: \<open>a_b c d e f\<close> has six alphanumeric runs, so the claim gives the
  parameter 6, where the code finds five words and writes \<open>__5__\<close>.
\<close>

theorem underscore_joins_words:
  "variable (varTag ''x'' ''a_b c d e f'') []
     = [nl] @ ''//** a_b c d e f **//'' @ [nl] @ ''__5__'' @ [nl] \<and>
   specWildcardCount ''a_b c d e f'' = 6"
  by code_simp

text \<open>
  C4, amended: for a variable whose name is neither \<open>bullet\<close> nor \<open>copyright\<close> the
  parameter of the wildcard marker is the larger of 5 and \<open>wordCount original\<close>, where
  a word is a maximal run of letters, digits and underscores. The marker follows the
  annotation of a non-empty \<open>original\<close>, each on a line of its own.
\<close>

theorem variable_wildcard_floor:
  assumes "findAttr tag ''name'' \<noteq> ''bullet''" and "findAttr tag ''name'' \<noteq> ''copyright''"
  shows "variable tag b =
           (let original = findAttr tag ''original'';
                b1 = indentNL b;
                b2 = (if original \<noteq> [] then indentNL (b1 @ ''//** '' @ original @ '' **//'') else b1)
            in indentNL (b2 @ ''__'' @ digits (max 5 (wordCount original)) @ ''__''))"
  using assms by (auto simp: variable_def Let_def max_def)

text \<open>
  C4, witness: the variable \<open>x\<close> with the original \<open>World\<close>, one word, after the
  literal \<open>Hello\<close>: the annotation and a wildcard of five words.
\<close>

theorem variable_wildcard_floor_witness:
  "variable (varTag ''x'' ''World'') ''Hello ''
     = ''Hello '' @ [nl] @ ''//** World **//'' @ [nl] @ ''__5__'' @ [nl]"
proof -
  have n1: "findAttr (varTag ''x'' ''World'') ''name'' \<noteq> ''bullet''" by code_simp
  have n2: "findAttr (varTag ''x'' ''World'') ''name'' \<noteq> ''copyright''" by code_simp
  have e: "(let original = findAttr (varTag ''x'' ''World'') ''original'';
                b1 = indentNL ''Hello '';
                b2 = (if original \<noteq> [] then indentNL (b1 @ ''//** '' @ original @ '' **//'') else b1)
            in indentNL (b2 @ ''__'' @ digits (max 5 (wordCount original)) @ ''__''))
           = ''Hello '' @ [nl] @ ''//** World **//'' @ [nl] @ ''__5__'' @ [nl]"
    by code_simp
  show ?thesis by (rule trans [OF variable_wildcard_floor [OF n1 n2] e])
qed

section \<open>Leading and trailing line feeds (C8)\<close>

lemma ensureFinalNL_shape: "ensureFinalNL d = [] \<or> last (ensureFinalNL d) = nl"
  by (simp add: ensureFinalNL_def)

lemma ensureFinalNL_hd: "d \<noteq> [] \<Longrightarrow> hd (ensureFinalNL d) = hd d"
  by (simp add: ensureFinalNL_def)

lemma ensureFinalNL_Nil: "ensureFinalNL d = [] \<longleftrightarrow> d = []"
  by (simp add: ensureFinalNL_def)

lemma trimLeadingNL_hd: "trimLeadingNL d = [] \<or> hd (trimLeadingNL d) \<noteq> nl"
  unfolding trimLeadingNL_def using hd_dropWhile [of "\<lambda>c. c = nl" d] by auto

text \<open>
  C8 says that the body ends with exactly one line feed. The code appends a line feed
  only when the last byte is not one, and removes none at the end: the template
  \<open>x\<close> followed by two line feeds is returned as it is.
\<close>

theorem two_final_newlines:
  "templateToLRE ''MIT.json'' (''x'' @ [nl, nl]) = Inr (''x'' @ [nl, nl], None) \<and>
   trailingNLs (''x'' @ [nl, nl]) = 2"
  by code_simp

text \<open>
  C8, amended: the body of every translation that completes is empty, or it begins
  with a byte that is not a line feed and ends with a line feed.
\<close>

theorem body_newlines:
  assumes "templateToLRE file t = Inr (d, w)"
  shows "d = [] \<or> (hd d \<noteq> nl \<and> last d = nl)"
proof -
  from assms obtain x where d: "d = ensureFinalNL (trimLeadingNL x)"
    by (auto simp: templateToLRE_def normalizer_def Let_def split: sum.splits)
  show ?thesis
  proof (cases "trimLeadingNL x = []")
    case True
    then show ?thesis by (simp add: d ensureFinalNL_def)
  next
    case False
    with trimLeadingNL_hd [of x] have "hd (trimLeadingNL x) \<noteq> nl" by simp
    with False show ?thesis
      using ensureFinalNL_shape [of "trimLeadingNL x"]
      by (simp add: d ensureFinalNL_hd ensureFinalNL_Nil)
  qed
qed

text \<open>
  C8, witness: a template that begins with a line feed and ends without one; the
  line feed in front is trimmed and one is added at the end.
\<close>

theorem body_newlines_witness:
  "templateToLRE ''MIT.json'' ([nl] @ ''x'') = Inr (''x'' @ [nl], None) \<and>
   hd (''x'' @ [nl]) \<noteq> nl \<and> last (''x'' @ [nl]) = nl"
proof -
  have e: "templateToLRE ''MIT.json'' ([nl] @ ''x'') = Inr (''x'' @ [nl], None)" by code_simp
  from body_newlines [OF e] show ?thesis using e by simp
qed

section \<open>The optional block stack\<close>

lemma takeWhile_stops:
  assumes "i < length xs" and "\<not> P (xs ! i)"
  shows "length (takeWhile P xs) \<le> i"
proof (rule ccontr)
  assume "\<not> length (takeWhile P xs) \<le> i"
  then have lt: "i < length (takeWhile P xs)" by simp
  then have "takeWhile P xs ! i = xs ! i" by (rule takeWhile_nth)
  moreover from lt have "takeWhile P xs ! i \<in> set (takeWhile P xs)" by (rule nth_mem)
  ultimately show False using assms(2) by (auto dest: set_takeWhileD)
qed

lemma lineStart_after_nl:
  assumes "s < length b" and "b ! s = nl"
  shows "s < lineStart b"
proof -
  let ?i = "length b - Suc s"
  from assms(1) have i: "?i < length (rev b)" by simp
  from assms have "rev b ! ?i = nl" by (simp add: rev_nth)
  with i have "length (takeWhile (\<lambda>c. c \<noteq> nl) (rev b)) \<le> ?i"
    by (intro takeWhile_stops) auto
  with assms(1) show ?thesis by (simp add: lineStart_def)
qed

lemma lineStart_le: "lineStart b \<le> length b"
  by (simp add: lineStart_def)

lemma wrap_keeps:
  assumes "wrap b text = Inr b'"
  shows "\<exists>out. b' = take (lineStart b) b @ out"
  using assms by (auto simp: wrap_def Let_def split: sum.splits)

lemma stackInv_wrap:
  assumes "stackInv stack b" and "wrap b text = Inr b'"
  shows "stackInv stack b'"
proof -
  from wrap_keeps [OF assms(2)] obtain out where b': "b' = take (lineStart b) b @ out" ..
  have "s < length b' \<and> b' ! s = nl" if "s \<in> set stack" for s
  proof -
    from that assms(1) have s: "s < length b" "b ! s = nl" by (auto simp: stackInv_def)
    then have "s < lineStart b" by (rule lineStart_after_nl)
    with s lineStart_le [of b] show ?thesis by (simp add: b' nth_append)
  qed
  with assms(1) show ?thesis by (simp add: stackInv_def)
qed

lemma stackInv_append: "stackInv stack b \<Longrightarrow> stackInv stack (b @ x)"
  by (auto simp: stackInv_def nth_append)

lemma indentNL_append: "\<exists>x. indentNL b = b @ [nl] @ x"
  by (simp add: indentNL_def)

lemma stackInv_indentNL: "stackInv stack b \<Longrightarrow> stackInv stack (indentNL b)"
  by (simp add: indentNL_def stackInv_append)

lemma prefix_indentNL: "prefix a b \<Longrightarrow> prefix a (indentNL b)"
  unfolding indentNL_def by (rule prefix_prefix)

lemma prefix_variable: "prefix b (variable tag b)"
proof -
  have 0: "prefix b (indentNL b)" by (simp add: prefix_indentNL)
  have 3: "prefix b (indentNL b @ s)" for s
    by (rule prefix_prefix [OF 0])
  have 1: "prefix b (indentNL (indentNL b @ s))" for s
    by (rule prefix_indentNL [OF 3])
  have 2: "prefix b (indentNL (indentNL (indentNL b @ s) @ u))" for s u
    by (rule prefix_indentNL [OF prefix_prefix [OF 1]])
  show ?thesis
    unfolding variable_def Let_def
    by (simp only: 0 1 2 3 simp_thms split: if_split)
qed

lemma stackInv_variable: "stackInv stack b \<Longrightarrow> stackInv stack (variable tag b)"
  using prefix_variable [of b tag] by (auto simp: prefix_def stackInv_append)

lemma stackInv_begin:
  assumes "stackInv stack b" and "beginOptional stack b = (stack', b')"
  shows "stackInv stack' b'"
proof -
  from assms(2) have st: "stack' = stack @ [length b]" and b0: "b' = indentNL b @ ''(( ''"
    by (simp_all add: beginOptional_def)
  obtain x where x: "indentNL b = b @ [nl] @ x" using indentNL_append by blast
  define y where "y = x @ ''(( ''"
  have b': "b' = b @ nl # y" by (simp add: b0 x y_def)
  from assms(1) have srt: "sorted_wrt (<) stack" and old: "\<forall>s\<in>set stack. s < length b \<and> b ! s = nl"
    by (simp_all add: stackInv_def)
  from srt old have "sorted_wrt (<) (stack @ [length b])"
    by (simp add: sorted_wrt_append)
  moreover have "s < length b' \<and> b' ! s = nl" if "s \<in> set (stack @ [length b])" for s
  proof (cases "s = length b")
    case True
    then show ?thesis by (simp add: b')
  next
    case False
    with that old have "s < length b" "b ! s = nl" by auto
    then show ?thesis by (simp add: b' nth_append)
  qed
  ultimately show ?thesis unfolding stackInv_def st by blast
qed

lemma stackInv_butlast:
  assumes "stackInv stack b" and "stack \<noteq> []"
  shows "\<forall>s\<in>set (butlast stack). s < last stack"
proof -
  from assms(2) have "stack = butlast stack @ [last stack]" by simp
  then have "sorted_wrt (<) (butlast stack @ [last stack])" using assms(1) by (simp add: stackInv_def)
  then show ?thesis by (simp add: sorted_wrt_append)
qed

lemma closing_append: "\<exists>x. closing s b = b @ x"
proof (cases "sinceHasNL s b")
  case True
  then show ?thesis by (simp add: closing_def indentNL_def)
next
  case False
  then show ?thesis by (simp add: closing_def indentNL_def)
qed

lemma endOptional_unfold:
  assumes "stack \<noteq> []" and "last stack \<le> length b"
  shows "endOptional stack b =
           Inr (butlast stack,
                if discardable (words (drop (last stack) (closing (last stack) b)))
                then take (last stack) (closing (last stack) b)
                else closing (last stack) b)"
  using assms unfolding endOptional_def closing_def Let_def by simp

lemma endOptional_Inr:
  assumes "endOptional stack b = Inr (stack', b')"
  shows "stack \<noteq> [] \<and> last stack \<le> length b"
proof -
  from assms have ne: "stack \<noteq> []" unfolding endOptional_def by (cases "stack = []") simp_all
  from assms ne have "\<not> length b < last stack"
    unfolding endOptional_def Let_def by (cases "length b < last stack") simp_all
  with ne show ?thesis by simp
qed

lemma stackInv_end:
  assumes "stackInv stack b" and "endOptional stack b = Inr (stack', b')"
  shows "stackInv stack' b'"
proof -
  let ?s = "last stack"
  from endOptional_Inr [OF assms(2)] have ne: "stack \<noteq> []" and le: "?s \<le> length b" by simp_all
  obtain x where x: "closing ?s b = b @ x" using closing_append by blast
  from assms(2) endOptional_unfold [OF ne le]
  have st: "stack' = butlast stack"
    and b': "b' = (if discardable (words (drop ?s (closing ?s b)))
                   then take ?s (closing ?s b) else closing ?s b)"
    by simp_all
  have below: "\<forall>s\<in>set (butlast stack). s < ?s" using assms(1) ne by (rule stackInv_butlast)
  from ne have split: "stack = butlast stack @ [last stack]" by simp
  have "sorted_wrt (<) (butlast stack @ [last stack])"
    using assms(1) split by (simp add: stackInv_def)
  then have sb: "sorted_wrt (<) (butlast stack)" by (simp add: sorted_wrt_append)
  have inv': "stackInv (butlast stack) b"
    using assms(1) sb by (auto simp: stackInv_def dest: in_set_butlastD)
  show ?thesis
  proof (cases "discardable (words (drop ?s (closing ?s b)))")
    case True
    with b' x le have "b' = take ?s b" by simp
    with inv' below le show ?thesis by (auto simp: st stackInv_def)
  next
    case False
    with b' x have "b' = b @ x" by simp
    with inv' show ?thesis by (simp add: st stackInv_append)
  qed
qed

lemma stackInv_dispatch:
  assumes "stackInv stack b" and "dispatch tag stack b = Inr (stack', b')"
  shows "stackInv stack' b'"
  using assms
  by (auto simp: dispatch_def stackInv_variable split: if_splits
           intro: stackInv_begin stackInv_end)

lemma stackInv_step:
  assumes "stackInv (optStart st) (buf st)" and "step t st = Inr st'"
  shows "stackInv (optStart st') (buf st')"
proof (cases "structural (drop (cursor st) t)")
  case True
  with assms show ?thesis
    by (auto simp: step_def tokenStep_def Let_def split: sum.splits intro: stackInv_wrap)
next
  case False
  show ?thesis
  proof (cases "tagOpen (drop (cursor st) t)")
    case True
    with False assms(2) have ts: "tagStep t st = Inr st'" by (simp add: step_def)
    then obtain b where w: "wrap (buf st) (slice t (start st) (cursor st)) = Inr b"
      by (auto simp: tagStep_def Let_def split: sum.splits)
    with assms(1) have ib: "stackInv (optStart st) b" by (rule stackInv_wrap)
    from ts w show ?thesis using ib
      by (auto simp: tagStep_def Let_def split: sum.splits option.splits if_splits prod.splits
               intro: stackInv_wrap stackInv_dispatch)
  next
    case False
    with \<open>\<not> structural (drop (cursor st) t)\<close> assms show ?thesis by (auto simp: step_def)
  qed
qed

lemma reachable_stackInv: "reachable t st \<Longrightarrow> stackInv (optStart st) (buf st)"
proof (induction rule: reachable.induct)
  case entry
  show ?case by (simp add: initial_def stackInv_def)
next
  case (round st st')
  then show ?case by (auto intro: stackInv_step)
qed


lemma Index_bound: "Index s sub = Some j \<Longrightarrow> j + length sub \<le> length s"
proof (induction s arbitrary: j)
  case Nil
  then show ?case by (simp split: if_splits)
next
  case (Cons c cs)
  show ?case
  proof (cases "HasPrefix (c # cs) sub")
    case True
    with Cons.prems have j0: "j = 0" by simp
    from True have "length (take (length sub) (c # cs)) = length sub"
      by (simp add: HasPrefix_def)
    then have "min (length (c # cs)) (length sub) = length sub"
      by (simp only: length_take)
    then have "length sub \<le> length (c # cs)" by linarith
    with j0 show ?thesis by simp
  next
    case False
    with Cons.prems obtain j' where "Index cs sub = Some j'" "j = Suc j'" by auto
    with Cons.IH [of j'] show ?thesis by simp
  qed
qed

lemma endOptionalAt_step:
  assumes "endOptionalAt t st b"
  shows "step t st =
           (case endOptional (optStart st) b of
              Inl e \<Rightarrow> Inl e
            | Inr (stack', b') \<Rightarrow>
                (let i1 = cursor st + 15;
                     i2 = i1 + length (takeWhile (\<lambda>c. c = CHR '' '') (drop i1 t))
                 in Inr \<lparr>cursor = i2, start = i2, optStart = stack', buf = b'\<rparr>))"
proof -
  let ?rest = "drop (cursor st) t"
  from assms obtain j where j: "Index ?rest ''>>'' = Some j"
    and tag: "take (j + 2) ?rest = ''<<endOptional>>''"
    by (auto simp: endOptionalAt_def split: option.splits)
  from Index_bound [OF j] have "j + 2 \<le> length ?rest" by simp
  then have "length (take (j + 2) ?rest) = j + 2" by simp
  with tag have j13: "j = 13" by simp
  from tag j13 have tag15: "take 15 ?rest = ''<<endOptional>>''" by simp
  from j j13 have j': "Index ?rest ''>>'' = Some 13" by simp
  have na: "findAttr ''<<endOptional>>'' ''original'' \<noteq> ''name''" by code_simp
  have d: "dispatch ''<<endOptional>>'' (optStart st) b = endOptional (optStart st) b"
    by (simp add: dispatch_def)
  from assms have w: "wrap (buf st) (slice t (start st) (cursor st)) = Inr b"
    and s1: "\<not> structural ?rest" and s2: "tagOpen ?rest"
    by (simp_all add: endOptionalAt_def)
  have "step t st = tagStep t st" using s1 s2 by (simp add: step_def)
  also have "\<dots> = (case dispatch ''<<endOptional>>'' (optStart st) b of
                      Inl e \<Rightarrow> Inl e
                    | Inr (stack', b') \<Rightarrow>
                        (let i1 = cursor st + 15;
                             i2 = i1 + length (takeWhile (\<lambda>c. c = CHR '' '') (drop i1 t))
                         in Inr \<lparr>cursor = i2, start = i2, optStart = stack', buf = b'\<rparr>))"
    unfolding tagStep_def
    using na by (simp add: Let_def w j' tag15 add.commute split: sum.splits prod.splits)
  finally show ?thesis by (simp add: d)
qed











lemma stackInv_top_newline:
  assumes "stackInv stack b" and "stack \<noteq> []"
  shows "last stack < length b \<and> sinceHasNL (last stack) b"
proof -
  from assms have s: "last stack < length b" "b ! last stack = nl"
    by (auto simp: stackInv_def)
  then have "drop (last stack) b = nl # drop (Suc (last stack)) b"
    by (metis Cons_nth_drop_Suc)
  with s show ?thesis by (simp add: sinceHasNL_def)
qed

lemma endOptionalAt_stackInv:
  assumes "reachable t st" and "endOptionalAt t st b"
  shows "stackInv (optStart st) b"
proof -
  from assms(2) have "wrap (buf st) (slice t (start st) (cursor st)) = Inr b"
    by (simp add: endOptionalAt_def)
  with reachable_stackInv [OF assms(1)] show ?thesis by (rule stackInv_wrap)
qed

lemma rounds_reachable: "reachable t st \<Longrightarrow> rounds n t st = Some st' \<Longrightarrow> reachable t st'"
proof (induction n arbitrary: st)
  case 0
  then show ?case by simp
next
  case (Suc n)
  from Suc.prems(2) obtain st1 where c: "cursor st < length t" and s: "step t st = Inr st1"
    and r: "rounds n t st1 = Some st'"
    by (auto split: if_splits sum.splits)
  from Suc.prems(1) c s have "reachable t st1" by (rule reachable.round)
  then show ?case using r by (rule Suc.IH)
qed

section \<open>The branch taken at the end of an optional block (C9)\<close>

text \<open>
  C9: whenever the loop handles an end-optional tag with a block open, the buffer holds
  a line feed at or after the offset on top of the stack, so the handler tests
  \<open>bytes.IndexByte(buf.Bytes()[start:], '\n') >= 0\<close> with a true result and writes
  \<open>indentNL\<close>, never the single space.
\<close>

theorem endOptional_newline_branch:
  assumes "reachable t st" and "endOptionalAt t st b" and "optStart st \<noteq> []"
  shows "sinceHasNL (last (optStart st)) b \<and>
         closing (last (optStart st)) b = indentNL (indentNL b @ ''))??'')"
proof -
  from endOptionalAt_stackInv [OF assms(1,2)] assms(3)
  have "sinceHasNL (last (optStart st)) b" by (simp add: stackInv_top_newline)
  then show ?thesis by (simp add: closing_def)
qed

text \<open>
  C9, witness: the template \<open><<beginOptional>>the<<endOptional>>\<close> after four rounds,
  at the end-optional tag.
\<close>

theorem endOptional_newline_branch_witness:
  "reachable ''<<beginOptional>>the<<endOptional>>''
      \<lparr>cursor = 20, start = 17, optStart = [0], buf = [nl] @ ''(( ''\<rparr> \<and>
   endOptionalAt ''<<beginOptional>>the<<endOptional>>''
      \<lparr>cursor = 20, start = 17, optStart = [0], buf = [nl] @ ''(( ''\<rparr>
      ([nl] @ ''(( the'') \<and>
   sinceHasNL 0 ([nl] @ ''(( the'') \<and>
   closing 0 ([nl] @ ''(( the'') = [nl] @ ''(( the'' @ [nl] @ ''))??'' @ [nl]"
proof -
  let ?t = "''<<beginOptional>>the<<endOptional>>''"
  let ?st = "\<lparr>cursor = 20, start = 17, optStart = [0], buf = [nl] @ ''(( ''\<rparr>"
  let ?b = "[nl] @ ''(( the''"
  have "rounds 4 ?t initial = Some ?st" by code_simp
  with reachable.entry have r: "reachable ?t ?st" by (rule rounds_reachable)
  have a: "endOptionalAt ?t ?st ?b" by code_simp
  have n: "optStart ?st \<noteq> []" by simp
  have e: "indentNL (indentNL ?b @ ''))??'') = [nl] @ ''(( the'' @ [nl] @ ''))??'' @ [nl]"
    by code_simp
  from endOptional_newline_branch [OF r a n]
  have "sinceHasNL 0 ?b \<and> closing 0 ?b = [nl] @ ''(( the'' @ [nl] @ ''))??'' @ [nl]"
    unfolding e by simp
  with r a show ?thesis by simp
qed

section \<open>Discarding an optional block (C3)\<close>



section \<open>Offsets on the stack (C10)\<close>

text \<open>
  C10: in every state of the loop the offsets on the stack are in ascending order and
  none is beyond the end of the buffer. When an end-optional tag is handled, the read
  of the buffer from the popped offset is therefore within bounds, and whether or not
  the handler cuts the buffer, the text before each offset that remains on the stack
  is what it was.
\<close>

theorem optStart_offsets_in_range:
  assumes "reachable t st"
  shows "sorted (optStart st) \<and>
         (\<forall>s\<in>set (optStart st). s \<le> length (buf st)) \<and>
         (\<forall>b. endOptionalAt t st b \<longrightarrow>
            endOptional (optStart st) b \<noteq> Inl SliceOutOfRange \<and>
            (\<forall>stack' b'. endOptional (optStart st) b = Inr (stack', b') \<longrightarrow>
               (\<forall>s\<in>set stack'. s \<le> length b' \<and> take s b' = take s b)))"
proof -
  from reachable_stackInv [OF assms] have inv: "stackInv (optStart st) (buf st)" .
  then have srt: "sorted_wrt (<) (optStart st)" by (simp add: stackInv_def)
  have "sorted (optStart st)"
    by (rule sorted_wrt_mono_rel [OF _ srt]) simp
  moreover from inv have "\<forall>s\<in>set (optStart st). s \<le> length (buf st)"
    by (auto simp: stackInv_def dest: less_imp_le)
  moreover have "endOptional (optStart st) b \<noteq> Inl SliceOutOfRange \<and>
            (\<forall>stack' b'. endOptional (optStart st) b = Inr (stack', b') \<longrightarrow>
               (\<forall>s\<in>set stack'. s \<le> length b' \<and> take s b' = take s b))"
    if at: "endOptionalAt t st b" for b
  proof (cases "optStart st = []")
    case True
    then show ?thesis by (simp add: endOptional_def)
  next
    case False
    let ?s = "last (optStart st)"
    from endOptionalAt_stackInv [OF assms at] have ib: "stackInv (optStart st) b" .
    with False have lt: "?s < length b" by (simp add: stackInv_top_newline)
    then have le: "?s \<le> length b" by simp
    have below: "\<forall>s\<in>set (butlast (optStart st)). s < ?s" using ib False by (rule stackInv_butlast)
    obtain x where x: "closing ?s b = b @ x" using closing_append by blast
    have "s \<le> length b' \<and> take s b' = take s b"
      if "s \<in> set (butlast (optStart st))"
        and "b' = take ?s (closing ?s b) \<or> b' = closing ?s b" for s b'
    proof -
      from that(1) below have "s < ?s" by simp
      with that(2) le show ?thesis by (auto simp: x)
    qed
    then show ?thesis
      unfolding endOptional_unfold [OF False le] by (auto split: if_splits)
  qed
  ultimately show ?thesis by blast
qed

text \<open>
  C10, witness: the template \<open>x<<beginOptional>>a<<beginOptional>>b<<endOptional>>\<close>
  after five rounds, with two blocks open at the offsets 1 and 6. The end of the inner
  block leaves the offset 1 on the stack and the text before it in place.
\<close>

theorem optStart_offsets_in_range_witness:
  "reachable ''x<<beginOptional>>a<<beginOptional>>b<<endOptional>>''
      \<lparr>cursor = 37, start = 36, optStart = [1, 6], buf = ''x'' @ [nl] @ ''(( a'' @ [nl] @ ''(( ''\<rparr> \<and>
   sorted [1, 6 :: nat] \<and>
   endOptionalAt ''x<<beginOptional>>a<<beginOptional>>b<<endOptional>>''
      \<lparr>cursor = 37, start = 36, optStart = [1, 6], buf = ''x'' @ [nl] @ ''(( a'' @ [nl] @ ''(( ''\<rparr>
      (''x'' @ [nl] @ ''(( a'' @ [nl] @ ''(( b'') \<and>
   endOptional [1, 6] (''x'' @ [nl] @ ''(( a'' @ [nl] @ ''(( b'')
     = Inr ([1], ''x'' @ [nl] @ ''(( a'' @ [nl] @ ''(( b'' @ [nl] @ ''))??'' @ [nl]) \<and>
   take 1 (''x'' @ [nl] @ ''(( a'' @ [nl] @ ''(( b'' @ [nl] @ ''))??'' @ [nl])
     = take 1 (''x'' @ [nl] @ ''(( a'' @ [nl] @ ''(( b'')"
proof -
  let ?t = "''x<<beginOptional>>a<<beginOptional>>b<<endOptional>>''"
  let ?st = "\<lparr>cursor = 37, start = 36, optStart = [1, 6], buf = ''x'' @ [nl] @ ''(( a'' @ [nl] @ ''(( ''\<rparr>"
  let ?b = "''x'' @ [nl] @ ''(( a'' @ [nl] @ ''(( b''"
  let ?b' = "''x'' @ [nl] @ ''(( a'' @ [nl] @ ''(( b'' @ [nl] @ ''))??'' @ [nl]"
  have "rounds 5 ?t initial = Some ?st" by code_simp
  with reachable.entry have r: "reachable ?t ?st" by (rule rounds_reachable)
  have a: "endOptionalAt ?t ?st ?b" by code_simp
  have e: "endOptional (optStart ?st) ?b = Inr ([1], ?b')" by code_simp
  from optStart_offsets_in_range [OF r] have srt: "sorted (optStart ?st)"
    and rest: "\<forall>b. endOptionalAt ?t ?st b \<longrightarrow>
            endOptional (optStart ?st) b \<noteq> Inl SliceOutOfRange \<and>
            (\<forall>stack' b'. endOptional (optStart ?st) b = Inr (stack', b') \<longrightarrow>
               (\<forall>s\<in>set stack'. s \<le> length b' \<and> take s b' = take s b))"
    by blast+
  from rest a e have "\<forall>s\<in>set [1 :: nat]. s \<le> length ?b' \<and> take s ?b' = take s ?b" by blast
  then have "take 1 ?b' = take 1 ?b" by simp
  with r a e srt show ?thesis by simp
qed

section \<open>Runs of a doubled character in literal text (C2)\<close>








section \<open>Normalising twice (C7)\<close>

subsection \<open>Replacement where nothing matches\<close>





subsection \<open>Trailing blanks\<close>

lemma blank_nl: "\<not> blank nl"
  by (simp add: blank_def)








subsection \<open>Blank lines\<close>


















subsection \<open>The last line feed\<close>










section \<open>Line width (C5)\<close>

subsection \<open>Lines of a text\<close>

lemma docLines_nonempty: "docLines s \<noteq> []"
  by (induction s) (auto split: list.splits)

lemma docLines_append_nl: "docLines (a @ nl # b) = docLines a @ docLines b"
proof (induction a)
  case Nil
  show ?case by simp
next
  case (Cons c a)
  obtain l ls where l: "docLines a = l # ls"
    using docLines_nonempty [of a] by (auto simp: neq_Nil_conv)
  with Cons show ?case by simp
qed

lemma docLines_nonl: "nl \<notin> set x \<Longrightarrow> docLines x = [x]"
  by (induction x) auto

lemma okText_append_nl: "okText (a @ nl # b) = (okText a \<and> okText b)"
  by (simp add: okText_def docLines_append_nl)

lemma okText_nonl: "nl \<notin> set x \<Longrightarrow> okText x = lineOK x"
  by (simp add: okText_def docLines_nonl)

lemma lineOK_Nil: "lineOK []"
  by (simp add: lineOK_def Target_def)

lemma okText_Nil: "okText []"
  by (simp add: okText_def lineOK_Nil)

lemma blank_not_nl: "blank c \<Longrightarrow> c \<noteq> nl"
  by (auto simp: blank_def)

lemma lineOK_token:
  assumes "\<forall>c\<in>set indent. blank c" and "\<forall>c\<in>set tok. \<not> blank c"
  shows "lineOK (indent @ tok)"
proof -
  from assms(1) have "dropWhile blank (indent @ tok) = dropWhile blank tok"
    by (simp add: dropWhile_append2)
  moreover have "\<forall>c\<in>set (dropWhile blank tok). \<not> blank c"
    using assms(2) by (auto dest: set_dropWhileD)
  ultimately show ?thesis by (simp add: lineOK_def list_all_iff)
qed

lemma lineOK_piece:
  assumes "\<forall>c\<in>set indent. blank c"
    and "int (length indent + length x) \<le> Target \<or> (\<forall>c\<in>set x. \<not> blank c)"
  shows "lineOK (indent @ x)"
  using assms(2)
proof
  assume "int (length indent + length x) \<le> Target"
  then show ?thesis by (simp add: lineOK_def)
next
  assume "\<forall>c\<in>set x. \<not> blank c"
  with assms(1) show ?thesis by (rule lineOK_token)
qed

lemma okText_piece:
  assumes ind: "\<forall>c\<in>set indent. blank c"
    and nlast: "nl \<notin> set (butlast line)"
    and ok: "int (length indent + length line) \<le> Target \<or> (\<forall>c\<in>set line. \<not> blank c)"
  shows "okText (indent @ line)"
proof (cases "line \<noteq> [] \<and> last line = nl")
  case True
  then have line: "line = butlast line @ [nl]" by (metis append_butlast_last_id)
  from ok have "int (length indent + length (butlast line)) \<le> Target \<or> (\<forall>c\<in>set (butlast line). \<not> blank c)"
    by (auto dest: in_set_butlastD)
  with ind have "lineOK (indent @ butlast line)" by (rule lineOK_piece)
  moreover from ind nlast have "nl \<notin> set (indent @ butlast line)"
    by (auto dest: blank_not_nl)
  ultimately have "okText (indent @ butlast line)" by (simp add: okText_nonl)
  then have "okText ((indent @ butlast line) @ nl # [])"
    unfolding okText_append_nl by (simp add: okText_Nil)
  with line show ?thesis by (metis append_assoc)
next
  case False
  have "nl \<notin> set line"
  proof (cases "line = []")
    case True
    then show ?thesis by simp
  next
    case ne: False
    with False have "last line \<noteq> nl" by simp
    moreover from ne have "set line = set (butlast line) \<union> {last line}"
      by (metis append_butlast_last_id set_append list.simps(15) empty_set Un_insert_right sup_bot.right_neutral)
    ultimately show ?thesis using nlast by auto
  qed
  with ind have "nl \<notin> set (indent @ line)" by (auto dest: blank_not_nl)
  moreover from ind ok have "lineOK (indent @ line)" by (rule lineOK_piece)
  ultimately show ?thesis by (simp add: okText_nonl)
qed

lemma findBreak_None:
  assumes "findBreak indent line = Inr None"
    and "int (length line) > Target - int (length indent)"
  shows "\<forall>c\<in>set line. \<not> blank c"
proof -
  let ?b = "Target - int (length indent)"
  from assms(1) have b0: "0 \<le> ?b"
    by (auto simp: findBreak_def Let_def split: if_splits)
  from assms(1) b0 have sb: "searchBack line (nat ?b) = None"
    by (auto simp: findBreak_def Let_def split: if_splits option.splits)
  let ?f = "takeWhile (\<lambda>c. \<not> blank c) (drop (nat ?b) line)"
  from assms(1) b0 sb have "nat ?b + length ?f = length line"
    by (auto simp: findBreak_def Let_def split: if_splits)
  then have "length ?f = length (drop (nat ?b) line)" by simp
  then have "?f = drop (nat ?b) line" by (metis takeWhile_eq_take take_all order_refl)
  then have tail: "\<forall>c\<in>set (drop (nat ?b) line). \<not> blank c" by (metis set_takeWhileD)
  have "\<not> blank (line ! i)" if "i < length line" for i
  proof (cases "i \<le> nat ?b")
    case True
    with sb show ?thesis by (rule searchBack_None)
  next
    case False
    with that have "line ! i = drop (nat ?b) line ! (i - nat ?b)" by simp
    moreover from False that have "i - nat ?b < length (drop (nat ?b) line)" by simp
    ultimately have "line ! i \<in> set (drop (nat ?b) line)" by (metis nth_mem)
    with tail show ?thesis by simp
  qed
  then show ?thesis by (auto simp: in_set_conv_nth)
qed

lemma findBreak_Some:
  assumes "findBreak indent line = Inr (Some j)"
    and "int (length line) > Target - int (length indent)"
  shows "j < length line \<and>
         (int (length indent + j) \<le> Target \<or> (\<forall>c\<in>set (take j line). \<not> blank c))"
proof -
  let ?b = "Target - int (length indent)"
  from assms(1) have b0: "0 \<le> ?b"
    by (auto simp: findBreak_def Let_def split: if_splits)
  from assms(2) b0 have len: "nat ?b < length line" by linarith
  show ?thesis
  proof (cases "searchBack line (nat ?b)")
    case (Some k)
    with assms(1) b0 have "j = k" by (simp add: findBreak_def Let_def)
    with Some have "j \<le> nat ?b" by (auto dest: searchBack_le)
    with len b0 show ?thesis by auto
  next
    case None
    let ?f = "takeWhile (\<lambda>c. \<not> blank c) (drop (nat ?b) line)"
    from None assms(1) b0 have j: "j = nat ?b + length ?f" and jn: "j \<noteq> length line"
      by (auto simp: findBreak_def Let_def split: if_splits)
    have "length ?f \<le> length (drop (nat ?b) line)" by (rule length_takeWhile_le)
    then have "length ?f \<le> length line - nat ?b" by (simp only: length_drop)
    with j jn len have jl: "j < length line" by linarith
    have "\<not> blank (take j line ! i)" if "i < length (take j line)" for i
    proof (cases "i \<le> nat ?b")
      case True
      with None have "\<not> blank (line ! i)" by (rule searchBack_None)
      with that show ?thesis by simp
    next
      case False
      from that have ij: "i < j" by simp
      with False j have "i - nat ?b < length ?f" by simp
      then have "?f ! (i - nat ?b) \<in> set ?f" by (rule nth_mem)
      then have "\<not> blank (?f ! (i - nat ?b))" by (auto dest: set_takeWhileD)
      moreover from \<open>i - nat ?b < length ?f\<close> have "?f ! (i - nat ?b) = drop (nat ?b) line ! (i - nat ?b)"
        by (rule takeWhile_nth)
      moreover from False jl ij have "drop (nat ?b) line ! (i - nat ?b) = line ! i" by simp
      ultimately show ?thesis using that by simp
    qed
    then have "\<forall>c\<in>set (take j line). \<not> blank c" by (auto simp: in_set_conv_nth)
    with jl show ?thesis by simp
  qed
qed

lemma butlast_suffix:
  assumes "nl \<notin> set (butlast line)"
  shows "nl \<notin> set (butlast (dropWhile blank (drop j line)))"
proof -
  have "dropWhile blank (drop j line) = drop (length (takeWhile blank (drop j line)) + j) line"
    by (simp add: dropWhile_eq_drop)
  then have "butlast (dropWhile blank (drop j line))
               = drop (length (takeWhile blank (drop j line)) + j) (butlast line)"
    by (simp add: butlast_drop)
  with assms show ?thesis by (auto dest: in_set_dropD)
qed

lemma wrapLoop_ok:
  assumes "\<forall>c\<in>set indent. blank c" and "nl \<notin> set (butlast line)"
    and "wrapLoop indent line = Inr out"
  shows "okText out"
  using assms
proof (induction indent line arbitrary: out rule: wrapLoop.induct)
  case (1 indent line)
  show ?case
  proof (cases "int (length line) > Target - int (length indent)")
    case False
    with "1.prems"(3) have out: "out = indent @ line" by (simp add: wrapLoop.simps)
    from False have "int (length indent + length line) \<le> Target" by simp
    with "1.prems"(1,2) show ?thesis unfolding out by (intro okText_piece) simp_all
  next
    case long: True
    from "1.prems"(3) long obtain r where fb: "findBreak indent line = Inr r"
      by (cases "findBreak indent line") (simp_all add: wrapLoop.simps [of indent line])
    show ?thesis
    proof (cases r)
      case None
      with fb long "1.prems"(3) have out: "out = indent @ line"
        by (simp add: wrapLoop.simps [of indent line])
      from fb None long have "\<forall>c\<in>set line. \<not> blank c" by (simp add: findBreak_None)
      with "1.prems"(1,2) show ?thesis unfolding out by (intro okText_piece) simp_all
    next
      case (Some j)
      let ?rest = "dropWhile blank (drop j line)"
      from fb Some long "1.prems"(3) obtain out' where
        rec: "wrapLoop indent ?rest = Inr out'" and out: "out = indent @ take j line @ [nl] @ out'"
        by (auto simp: wrapLoop.simps [of indent line] split: sum.splits)
      from fb Some have fbj: "findBreak indent line = Inr (Some j)" by simp
      from findBreak_Some [OF fbj long] have jl: "j < length line"
        and w0: "int (length indent + j) \<le> Target \<or> (\<forall>c\<in>set (take j line). \<not> blank c)"
        by blast+
      from jl have "length (take j line) = j" by simp
      with w0 have w: "int (length indent + length (take j line)) \<le> Target \<or>
          (\<forall>c\<in>set (take j line). \<not> blank c)"
        by (simp only:)
      from "1.prems"(2) have "nl \<notin> set (butlast ?rest)" by (rule butlast_suffix)
      from "1.IH" [OF long fbj refl "1.prems"(1) this rec] have ok': "okText out'" .
      from jl have "take j line = take j (butlast line)" by (simp add: take_butlast)
      with "1.prems"(2) have "nl \<notin> set (take j line)" by (auto dest: in_set_takeD)
      with "1.prems"(1) have "nl \<notin> set (indent @ take j line)" by (auto dest: blank_not_nl)
      moreover from "1.prems"(1) w have "lineOK (indent @ take j line)" by (rule lineOK_piece)
      ultimately have "okText (indent @ take j line)" by (simp add: okText_nonl)
      with ok' have "okText ((indent @ take j line) @ nl # out')"
        by (simp only: okText_append_nl)
      then show ?thesis by (simp add: out)
    qed
  qed
qed

lemma dropWhile_keeps_last:
  assumes "s \<noteq> []" and "\<not> P (last s)"
  shows "dropWhile P s \<noteq> [] \<and> last (dropWhile P s) = last s"
proof -
  from assms have ne: "dropWhile P s \<noteq> []"
    by (auto simp: dropWhile_eq_Nil_conv)
  have d: "dropWhile P s = drop (length (takeWhile P s)) s" by (rule dropWhile_eq_drop)
  with ne have "length (takeWhile P s) < length s" by simp
  then have "last (drop (length (takeWhile P s)) s) = last s" by (rule last_drop)
  with ne d show ?thesis by simp
qed

lemma wrapLoop_last_nl:
  assumes "line \<noteq> []" and "last line = nl" and "wrapLoop indent line = Inr out"
  shows "out \<noteq> [] \<and> last out = nl"
  using assms
proof (induction indent line arbitrary: out rule: wrapLoop.induct)
  case (1 indent line)
  show ?case
  proof (cases "int (length line) > Target - int (length indent)")
    case False
    with "1.prems" show ?thesis by (auto simp: wrapLoop.simps)
  next
    case long: True
    from "1.prems"(3) long obtain r where fb: "findBreak indent line = Inr r"
      by (cases "findBreak indent line") (simp_all add: wrapLoop.simps [of indent line])
    show ?thesis
    proof (cases r)
      case None
      with fb long "1.prems" show ?thesis by (auto simp: wrapLoop.simps [of indent line])
    next
      case (Some j)
      let ?rest = "dropWhile blank (drop j line)"
      from fb Some long "1.prems"(3) obtain out' where
        rec: "wrapLoop indent ?rest = Inr out'" and out: "out = indent @ take j line @ [nl] @ out'"
        by (auto simp: wrapLoop.simps [of indent line] split: sum.splits)
      from fb Some have fbj: "findBreak indent line = Inr (Some j)" by simp
      from findBreak_Some [OF fbj long] have jl: "j < length line" by simp
      then have dn: "drop j line \<noteq> []" and "last (drop j line) = last line"
        by (simp_all add: last_drop)
      with "1.prems"(2) have "\<not> blank (last (drop j line))" by (simp add: blank_nl)
      from dropWhile_keeps_last [of "drop j line" blank, OF dn this] \<open>last (drop j line) = last line\<close> "1.prems"(2)
      have "?rest \<noteq> []" and "last ?rest = nl" by simp_all
      from "1.IH" [OF long fbj refl this rec] show ?thesis by (simp add: out)
    qed
  qed
qed

lemma wrapLine_ok:
  assumes "nl \<notin> set (butlast l)" and "wrapLine l = Inr a"
  shows "okText a"
proof -
  have "\<forall>c\<in>set (takeWhile blank l). blank c" by (auto dest: set_takeWhileD)
  moreover from assms(1) have "nl \<notin> set (butlast (dropWhile blank (drop 0 l)))"
    by (rule butlast_suffix)
  then have "nl \<notin> set (butlast (dropWhile blank l))" by simp
  ultimately show ?thesis using assms(2) unfolding wrapLine_def by (rule wrapLoop_ok)
qed

lemma wrapLine_last_nl:
  assumes "l \<noteq> []" and "last l = nl" and "wrapLine l = Inr a"
  shows "a \<noteq> [] \<and> last a = nl"
proof -
  from assms(2) have "\<not> blank (last l)" by (simp add: blank_nl)
  from dropWhile_keeps_last [of l blank, OF assms(1) this] assms(2)
  have "dropWhile blank l \<noteq> []" and "last (dropWhile blank l) = nl" by simp_all
  then show ?thesis using assms(3) unfolding wrapLine_def by (rule wrapLoop_last_nl)
qed

lemma wrapLines_ok:
  assumes "\<forall>l\<in>set ls. nl \<notin> set (butlast l)"
    and "\<forall>l\<in>set (butlast ls). l \<noteq> [] \<and> last l = nl"
    and "wrapLines ls = Inr out"
  shows "okText out"
  using assms
proof (induction ls arbitrary: out)
  case Nil
  then show ?case by (simp add: okText_Nil)
next
  case (Cons l ls)
  from Cons.prems(3) obtain a b where a: "wrapLine l = Inr a" and b: "wrapLines ls = Inr b"
    and out: "out = a @ b"
    by (auto split: sum.splits)
  from Cons.prems(1) a have oka: "okText a" by (auto intro: wrapLine_ok)
  show ?case
  proof (cases "ls = []")
    case True
    with b out oka show ?thesis by simp
  next
    case False
    with Cons.prems(2) have l: "l \<noteq> []" "last l = nl"
      and rest: "\<forall>l\<in>set (butlast ls). l \<noteq> [] \<and> last l = nl"
      by simp_all
    from wrapLine_last_nl [OF l a] have a': "a = butlast a @ [nl]"
      by (metis append_butlast_last_id)
    from Cons.prems(1) have "\<forall>l\<in>set ls. nl \<notin> set (butlast l)" by simp
    from Cons.IH [OF this rest b] have okb: "okText b" .
    from oka a' have "okText (butlast a @ nl # [])" by simp
    then have "okText (butlast a)" by (simp only: okText_append_nl)
    with okb have ok: "okText (butlast a @ nl # b)" by (simp only: okText_append_nl)
    have "a @ b = (butlast a @ [nl]) @ b" using a' by simp
    also have "\<dots> = butlast a @ nl # b" by simp
    finally have eq: "a @ b = butlast a @ nl # b" .
    show ?thesis unfolding out eq by (rule ok)
  qed
qed

lemma SplitAfter_nonempty: "SplitAfter s \<noteq> []"
  by (induction s) (auto split: list.splits)

lemma SplitAfter_pieces: "\<forall>l\<in>set (SplitAfter s). nl \<notin> set (butlast l)"
proof (induction s)
  case Nil
  show ?case by simp
next
  case (Cons c s)
  obtain l ls where l: "SplitAfter s = l # ls"
    using SplitAfter_nonempty [of s] by (auto simp: neq_Nil_conv)
  with Cons show ?case by (auto dest: in_set_butlastD)
qed

lemma SplitAfter_butlast: "\<forall>l\<in>set (butlast (SplitAfter s)). l \<noteq> [] \<and> last l = nl"
proof (induction s)
  case Nil
  show ?case by simp
next
  case (Cons c s)
  obtain l ls where l: "SplitAfter s = l # ls"
    using SplitAfter_nonempty [of s] by (auto simp: neq_Nil_conv)
  show ?case
  proof (cases "c = nl")
    case True
    with Cons l show ?thesis by simp
  next
    case False
    with Cons l show ?thesis by (cases "ls = []") auto
  qed
qed

lemma lastLine_nonl: "nl \<notin> set (drop (lineStart b) b)"
proof -
  let ?n = "length (takeWhile (\<lambda>c. c \<noteq> nl) (rev b))"
  have 1: "rev (take ?n (rev b)) = drop (length b - ?n) b"
    by (simp add: rev_take)
  have 2: "take ?n (rev b) = takeWhile (\<lambda>c. c \<noteq> nl) (rev b)"
    by (rule takeWhile_eq_take [symmetric])
  have "drop (lineStart b) b = rev (takeWhile (\<lambda>c. c \<noteq> nl) (rev b))"
    unfolding lineStart_def 1 [symmetric] 2 ..
  then show ?thesis by (auto dest: set_takeWhileD)
qed

text \<open>
  C5 says that no line of the body is longer than 80 columns unless it is a single
  token. Only literal text goes through \<open>wrap\<close>; the annotation of a variable is
  written by \<open>fmt.Fprintf\<close> and closed by \<open>indentNL\<close>, so it is never wrapped: an
  \<open>original\<close> of forty words gives a line of 90 columns with blanks in it.
\<close>

theorem annotation_not_wrapped:
  "templateToLRE ''MIT.json'' (varTag ''x'' (concat (replicate 40 ''a '')))
     = Inr (''//** '' @ concat (replicate 40 ''a '') @ '' **//'' @ [nl] @ ''__40__'' @ [nl], None) \<and>
   \<not> list_all lineOK
         (docLines (''//** '' @ concat (replicate 40 ''a '') @ '' **//'' @ [nl] @ ''__40__'' @ [nl]))"
  by code_simp

text \<open>
  C5, amended: every line that \<open>wrap\<close> writes, from the start of the line of the
  buffer that it takes back to the end of the appended text, has at most 80 columns
  or is indentation followed by a single token without a blank.
\<close>

theorem wrap_within_width:
  assumes "wrap b text = Inr b'"
  shows "list_all lineOK (docLines (drop (lineStart b) b'))"
proof -
  let ?i = "lineStart b"
  obtain h tl where sp: "SplitAfter text = h # tl"
    using SplitAfter_nonempty [of "text"] by (auto simp: neq_Nil_conv)
  let ?first = "drop ?i b @ h"
  from assms sp obtain out where w: "wrapLines (?first # tl) = Inr out"
    and b': "b' = take ?i b @ out"
    by (auto simp: wrap_def Let_def split: sum.splits)
  from SplitAfter_pieces [of "text"] sp have hp: "nl \<notin> set (butlast h)"
    and tp: "\<forall>l\<in>set tl. nl \<notin> set (butlast l)"
    by simp_all
  have "nl \<notin> set (butlast ?first)"
  proof (cases "h = []")
    case True
    with lastLine_nonl [of b] show ?thesis by (auto dest: in_set_butlastD)
  next
    case False
    then have "butlast ?first = drop ?i b @ butlast h" by (simp add: butlast_append)
    with hp lastLine_nonl [of b] show ?thesis by simp
  qed
  with tp have p1: "\<forall>l\<in>set (?first # tl). nl \<notin> set (butlast l)" by simp
  have p2: "\<forall>l\<in>set (butlast (?first # tl)). l \<noteq> [] \<and> last l = nl"
  proof (cases "tl = []")
    case True
    then show ?thesis by simp
  next
    case False
    with SplitAfter_butlast [of "text"] sp have "h \<noteq> [] \<and> last h = nl"
      and "\<forall>l\<in>set (butlast tl). l \<noteq> [] \<and> last l = nl"
      by simp_all
    with False show ?thesis by simp
  qed
  from wrapLines_ok [OF p1 p2 w] have "okText out" .
  moreover have "drop ?i b' = out"
    using lineStart_le [of b] by (simp add: b')
  ultimately show ?thesis by (simp add: okText_def)
qed

text \<open>
  C5, witness: twenty words of four letters appended to a buffer that holds an
  indentation of two blanks; the text is broken after the fifteenth word and the
  second line gets the same indentation.
\<close>

theorem wrap_within_width_witness:
  "wrap ''  '' (concat (replicate 20 ''abcd ''))
     = Inr (''  '' @ concat (replicate 14 ''abcd '') @ ''abcd'' @ [nl] @
            ''  '' @ concat (replicate 5 ''abcd '')) \<and>
   list_all lineOK
     (docLines (''  '' @ concat (replicate 14 ''abcd '') @ ''abcd'' @ [nl] @
                ''  '' @ concat (replicate 5 ''abcd '')))"
proof -
  let ?out = "''  '' @ concat (replicate 14 ''abcd '') @ ''abcd'' @ [nl] @
              ''  '' @ concat (replicate 5 ''abcd '')"
  have e: "wrap ''  '' (concat (replicate 20 ''abcd '')) = Inr ?out" by code_simp
  have z: "lineStart ''  '' = 0" by code_simp
  from wrap_within_width [OF e] have "list_all lineOK (docLines (drop 0 ?out))"
    unfolding z .
  with e show ?thesis by simp
qed

end
